theory Spec2Isabelle
  imports Complex_Main "HOL-Library.Word" "HOL-Library.Char_ord" "HOL-Library.List_Lexorder"
begin

unbundle bit_operations_syntax

section \<open>Bitstream unit parser (multiplexer.py, parse_v3c_units)\<close>

type_synonym byte = "8 word"
type_synonym bytes = "byte list"

text \<open>The exceptions the modelled code can raise, with the message where the source gives one.\<close>

datatype error =
  ValueError string | IndexError | RuntimeError string | FileNotFoundError string | KeyError string

text \<open>Python's \<open>xs[a:b]\<close> for non-negative \<open>a\<close> and \<open>b\<close>: never raises, clips at the end.\<close>

definition slice :: "'a list \<Rightarrow> nat \<Rightarrow> nat \<Rightarrow> 'a list" where
  "slice xs a b = take (b - a) (drop a xs)"

text \<open>\<open>int.from_bytes(bs, "big")\<close>.\<close>

definition from_bytes_big :: "bytes \<Rightarrow> nat" where
  "from_bytes_big bs = foldl (\<lambda>acc b. acc * 256 + unat b) 0 bs"

text \<open>
  A generator is modelled by what it yields before it stops, together with the exception that
  stopped it (\<open>None\<close> when it ends normally).
\<close>

type_synonym v3c_unit = "nat \<times> bytes"
type_synonym unit_stream = "v3c_unit list \<times> error option"

text \<open>The \<open>while\<close> loop of \<open>parse_v3c_units\<close>, started at \<open>offset\<close>.\<close>

function parse_loop :: "bytes \<Rightarrow> nat \<Rightarrow> nat \<Rightarrow> unit_stream" where
  "parse_loop data size_len offset =
     (if offset + size_len \<le> length data then
        (let size = from_bytes_big (slice data offset (offset + size_len));
             start = offset;
             offset1 = offset + size_len;
             end_off = offset1 + size
         in if end_off > length data then ([], Some (ValueError ''Truncated unit''))
            else (case slice data offset1 end_off of
                    [] \<Rightarrow> ([], Some IndexError)
                  | p0 # _ \<Rightarrow>
                      (let unit_type = unat (drop_bit 3 p0 AND 0x1F);
                           rest = parse_loop data size_len end_off
                       in ((unit_type, slice data start end_off) # fst rest, snd rest))))
      else ([], None))"
  by pat_completeness auto
termination
proof (relation "measure (\<lambda>(data, size_len, offset). length data - offset)")
  show "wf (measure (\<lambda>(data, size_len, offset). length data - offset))" by simp
next
  fix data :: bytes and size_len offset x xa xb xc x21 x22
  assume a: "offset + size_len \<le> length data"
    and x: "x = from_bytes_big (slice data offset (offset + size_len))"
    and xb: "xb = offset + size_len" and xc: "xc = xb + x"
    and le: "\<not> length data < xc"
    and sl: "slice data xb xc = x21 # x22"
  have "x \<noteq> 0"
  proof
    assume "x = 0"
    with sl show False by (simp add: slice_def xc)
  qed
  with le xb xc show "((data, size_len, xc), data, size_len, offset)
      \<in> measure (\<lambda>(data, size_len, offset). length data - offset)"
    by simp
qed

declare parse_loop.simps [simp del]

definition parse_v3c_units :: "bytes \<Rightarrow> unit_stream" where
  "parse_v3c_units data =
     (case data of
        [] \<Rightarrow> ([], None)
      | header # _ \<Rightarrow>
          (let size_len = unat (drop_bit 5 header) + 1
           in parse_loop data size_len 1))"

text \<open>\<open>list(gen)\<close>: the yielded values, or the exception that stopped the generator.\<close>

definition py_list :: "'a list \<times> error option \<Rightarrow> error + 'a list" where
  "py_list g = (case snd g of None \<Rightarrow> Inr (fst g) | Some e \<Rightarrow> Inl e)"

text \<open>\<open>xs[i]\<close> for a non-negative index.\<close>

definition index :: "'a list \<Rightarrow> nat \<Rightarrow> error + 'a" where
  "index xs i = (if i < length xs then Inr (xs ! i) else Inl IndexError)"

text \<open>Sequencing of statements that can raise: the first exception ends the sequence.\<close>

definition and_then :: "error + 'a \<Rightarrow> ('a \<Rightarrow> error + 'b) \<Rightarrow> error + 'b" where
  "and_then r f = (case r of Inl e \<Rightarrow> Inl e | Inr x \<Rightarrow> f x)"

subsection \<open>The sample-stream format, as the specification words it\<close>

text \<open>
  Byte 0 is the header, its top 3 bits plus 1 the width \<open>L\<close> of every size field; then
  repeated \<open>[L-byte big-endian size][payload]\<close>; bits 3 to 7 of payload byte 0 are the unit
  type. These definitions are the writer's side of the format, against which the parser of
  the source is compared.
\<close>

fun to_bytes_big :: "nat \<Rightarrow> nat \<Rightarrow> bytes" where
  "to_bytes_big 0 n = []"
| "to_bytes_big (Suc k) n = to_bytes_big k (n div 256) @ [of_nat (n mod 256)]"

definition size_len_of :: "byte \<Rightarrow> nat" where
  "size_len_of header = unat header div 32 + 1"

definition unit_type_of :: "bytes \<Rightarrow> nat" where
  "unit_type_of payload = (unat (hd payload) div 8) mod 32"

definition frame_unit :: "nat \<Rightarrow> bytes \<Rightarrow> bytes" where
  "frame_unit L payload = to_bytes_big L (length payload) @ payload"

definition sample_stream :: "byte \<Rightarrow> bytes list \<Rightarrow> bytes" where
  "sample_stream header payloads =
     header # concat (map (frame_unit (size_len_of header)) payloads)"

text \<open>A payload a unit of the format can carry: it has its type byte and its length fits the size field.\<close>

definition unit_payload_ok :: "nat \<Rightarrow> bytes \<Rightarrow> bool" where
  "unit_payload_ok L payload \<longleftrightarrow> payload \<noteq> [] \<and> length payload < 256 ^ L"

section \<open>Segment multiplexer (multiplexer.py, combine_per_segment)\<close>

text \<open>\<open>f"segment_{i+1:04d}.bin"\<close>.\<close>

fun dec_digits :: "nat \<Rightarrow> string" where
  "dec_digits n =
     (if n < 10 then [char_of (48 + n)]
      else dec_digits (n div 10) @ [char_of (48 + n mod 10)])"

declare dec_digits.simps [simp del]

definition fmt_04d :: "nat \<Rightarrow> string" where
  "fmt_04d n = (let s = dec_digits n in replicate (4 - length s) (CHR ''0'') @ s)"

definition seg_name :: "nat \<Rightarrow> string" where
  "seg_name i = ''segment_'' @ fmt_04d (i + 1) @ ''.bin''"

text \<open>
  The body of the \<open>for\<close> loop for one segment index, from the four files' bytes to the bytes
  written. Every statement that can raise comes in the source's order; nothing is written
  before the last of them.
\<close>

definition combine_segment :: "bytes \<Rightarrow> bytes \<Rightarrow> bytes \<Rightarrow> bytes \<Rightarrow> error + bytes" where
  "combine_segment atlas_data occp_data geom_data attr_data =
     and_then (py_list (parse_v3c_units atlas_data)) (\<lambda>atlas_units.
     and_then (py_list (parse_v3c_units occp_data)) (\<lambda>occp_units.
     and_then (py_list (parse_v3c_units geom_data)) (\<lambda>geom_units.
     and_then (py_list (parse_v3c_units attr_data)) (\<lambda>attr_units.
     and_then (index atlas_units 0) (\<lambda>u_vps.
     and_then (index atlas_units 1) (\<lambda>u_ad.
     and_then (index occp_units 1) (\<lambda>u_ovd.
     and_then (index geom_units 1) (\<lambda>u_gvd.
     and_then (index attr_units 1) (\<lambda>u_avd.
     and_then (index atlas_data 0) (\<lambda>header_byte.
       Inr ([header_byte] @ snd u_vps @ snd u_ad @ snd u_ovd @ snd u_gvd @ snd u_avd)))))))))))"

text \<open>
  The state the run leaves behind: the files written under the output root, in the order
  written, and the exception that ended the run, if any. The four arguments are the contents
  of the sorted \<open>segment_*.bin\<close> files of the four track folders; the output root is taken to
  be a folder of its own.
\<close>

type_synonym run_result = "(string \<times> bytes) list \<times> error option"

function combine_loop ::
  "bytes list \<Rightarrow> bytes list \<Rightarrow> bytes list \<Rightarrow> bytes list \<Rightarrow> nat \<Rightarrow> nat \<Rightarrow> run_result" where
  "combine_loop atlas occp geom attr n i =
     (if i < n then
        (case combine_segment (atlas ! i) (occp ! i) (geom ! i) (attr ! i) of
           Inl e \<Rightarrow> ([], Some e)
         | Inr out \<Rightarrow>
             (let rest = combine_loop atlas occp geom attr n (Suc i)
              in ((seg_name i, out) # fst rest, snd rest)))
      else ([], None))"
  by pat_completeness auto
termination
  by (relation "measure (\<lambda>(atlas, occp, geom, attr, n, i). n - i)") auto

declare combine_loop.simps [simp del]

definition combine_per_segment ::
  "bytes list \<Rightarrow> bytes list \<Rightarrow> bytes list \<Rightarrow> bytes list \<Rightarrow> run_result" where
  "combine_per_segment atlas occp geom attr =
     (if \<not> (length atlas = length occp \<and> length occp = length geom \<and> length geom = length attr)
      then ([], Some (RuntimeError ''Segment count mismatch across tracks''))
      else combine_loop atlas occp geom attr (length atlas) 0)"

text \<open>
  What the format says of one parsed unit \<open>(unitType, fullUnitBytes)\<close>: the bytes start with
  the \<open>L\<close>-byte size prefix, which counts the payload bytes after it, and the type is bits 3
  to 7 of the first payload byte.
\<close>

definition unit_decoded :: "nat \<Rightarrow> v3c_unit \<Rightarrow> bool" where
  "unit_decoded L u \<longleftrightarrow>
     L < length (snd u)
     \<and> from_bytes_big (take L (snd u)) = length (snd u) - L
     \<and> fst u = unat (snd u ! L) div 8 mod 32"

text \<open>
  Where the parser may stop, given the bytes \<open>tail\<close> left after the units it yielded and the
  exception \<open>e\<close> it ends with: normally only when fewer than \<open>L\<close> bytes are left; otherwise a
  size field is there, and the exception is the one for a unit of size 0, which has no type
  byte, or the one for a unit whose declared size runs past the end.
\<close>

definition stops_at :: "nat \<Rightarrow> bytes \<Rightarrow> error option \<Rightarrow> bool" where
  "stops_at L tail e =
     (case e of
        None \<Rightarrow> length tail < L
      | Some err \<Rightarrow>
          L \<le> length tail
          \<and> (if from_bytes_big (take L tail) = 0 then err = IndexError
             else err = ValueError ''Truncated unit''
                  \<and> length tail < L + from_bytes_big (take L tail)))"

text \<open>
  A track file the multiplexer can take its units from: the parser ends normally on it and
  yields at least two units. \<open>unit_at d k\<close> is the \<open>fullUnitBytes\<close> of the unit at position
  \<open>k\<close> of the parsed file.
\<close>

definition two_units :: "bytes \<Rightarrow> bool" where
  "two_units d \<longleftrightarrow>
     snd (parse_v3c_units d) = None \<and> 2 \<le> length (fst (parse_v3c_units d))"

definition unit_at :: "bytes \<Rightarrow> nat \<Rightarrow> bytes" where
  "unit_at d k = snd (fst (parse_v3c_units d) ! k)"

text \<open>The combined segment of the specification: \<open>[header, VPS, AD, OVD, GVD, AVD]\<close>, by position.\<close>

definition combined_segment :: "bytes \<Rightarrow> bytes \<Rightarrow> bytes \<Rightarrow> bytes \<Rightarrow> bytes" where
  "combined_segment atlas_data occp_data geom_data attr_data =
     take 1 atlas_data @ unit_at atlas_data 0 @ unit_at atlas_data 1
       @ unit_at occp_data 1 @ unit_at geom_data 1 @ unit_at attr_data 1"

text \<open>\<open>int(s)\<close> for a string of decimal digits; it also tells the output names apart.\<close>

definition undec :: "string \<Rightarrow> nat" where
  "undec s = foldl (\<lambda>acc c. acc * 10 + (of_char c - 48)) 0 s"

section \<open>Job graph builder (encoder/tmc2_encoder.py)\<close>

text \<open>
  Encoder parameters are a dictionary from names to values; the values the builder itself
  puts there are integers and one string.
\<close>

datatype pval = PInt int | PStr string | PList "string list"

type_synonym params = "string \<rightharpoonup> pval"

text \<open>\<open>d.setdefault(k, v)\<close>: binds \<open>k\<close> only when the dictionary has no such key.\<close>

definition setdefault :: "('k \<rightharpoonup> 'v) \<Rightarrow> 'k \<Rightarrow> 'v \<Rightarrow> ('k \<rightharpoonup> 'v)" where
  "setdefault d k v = (case d k of None \<Rightarrow> d(k \<mapsto> v) | Some _ \<Rightarrow> d)"

text \<open>
  A tile directory: its path and the names of the files in it. \<open>glob("*.ply")\<close> keeps the
  names that end in \<open>.ply\<close>, \<open>sorted\<close> orders them as strings.
\<close>

record tile_dir =
  dir_name :: string
  dir_entries :: "string list"

definition glob_ply :: "string list \<Rightarrow> string list" where
  "glob_ply names = filter (\<lambda>n. 4 \<le> length n \<and> drop (length n - 4) n = ''.ply'') names"

text \<open>
  \<open>Path.stem\<close> of a name that ends in \<open>.ply\<close>: the name without this suffix, except that the
  name \<open>.ply\<close> itself has no suffix.
\<close>

definition ply_stem :: "string \<Rightarrow> string" where
  "ply_stem n = (if 4 < length n then take (length n - 4) n else n)"

definition is_digit :: "char \<Rightarrow> bool" where
  "is_digit c \<longleftrightarrow> 48 \<le> (of_char c :: nat) \<and> (of_char c :: nat) \<le> 57"

text \<open>
  \<open>re.search(r"(.*?)(\d+)$", s)\<close>, giving groups 1 and 2. \<open>$\<close> matches at the end and before
  a newline that ends the string; the digits are the longest run that ends there; \<open>.\<close> does
  not match a newline, so the lazy group 1 starts after the last newline before the digits.
\<close>

definition re_prefix_digits :: "string \<Rightarrow> (string \<times> string) option" where
  "re_prefix_digits s =
     (let body = (if s \<noteq> [] \<and> last s = CHR 0x0A then butlast s else s);
          digits = rev (takeWhile is_digit (rev body));
          front = take (length body - length digits) body;
          prefix = rev (takeWhile (\<lambda>c. c \<noteq> CHR 0x0A) (rev front))
      in if digits = [] then None else Some (prefix, digits))"

text \<open>The \<open>for fp in frame_files\<close> loop: the widest numbering seen and the frame numbers.\<close>

fun scan_frames :: "string list \<Rightarrow> nat \<Rightarrow> nat list \<Rightarrow> nat \<times> nat list" where
  "scan_frames [] width frame_indices = (width, frame_indices)"
| "scan_frames (fp # fps) width frame_indices =
     (case re_prefix_digits (ply_stem fp) of
        None \<Rightarrow> scan_frames fps width frame_indices
      | Some m \<Rightarrow>
          scan_frames fps (max width (length (snd m))) (frame_indices @ [undec (snd m)]))"

definition derive_frame_sequence :: "tile_dir \<Rightarrow> error + (string \<times> nat \<times> nat)" where
  "derive_frame_sequence td =
     (let frame_files = sort (glob_ply (dir_entries td))
      in if frame_files = [] then Inl (ValueError (dir_name td @ '': no .ply frames found''))
         else
           (let stem = ply_stem (hd frame_files)
            in case re_prefix_digits stem of
                 None \<Rightarrow>
                   Inl (ValueError
                     (dir_name td @ '': unable to infer numbering pattern from '' @ stem))
               | Some m \<Rightarrow>
                   (let scanned = scan_frames frame_files (length (snd m)) [];
                        width = fst scanned;
                        frame_indices = snd scanned
                    in if frame_indices = [] then
                         Inl (ValueError
                           (dir_name td @ '': no numbered frames found in tile directory''))
                       else
                         Inr (fst m @ ''%0'' @ dec_digits width @ ''d.ply'',
                              fold min (tl frame_indices) (hd frame_indices),
                              length frame_indices))))"

text \<open>
  An entry of \<open>qp_pairs\<close>: a dictionary, a list or tuple, or something else (its type name
  kept for the message). The numbers are taken as already converted by \<open>int\<close>.
\<close>

datatype qp_entry = QDict "string \<rightharpoonup> int" | QSeq "int list" | QOther string

type_synonym qp_config = "int \<times> int \<times> int"

fun normalize_from :: "nat \<Rightarrow> qp_entry list \<Rightarrow> error + qp_config list" where
  "normalize_from idx [] = Inr []"
| "normalize_from idx (QDict pair # rest) =
     (case (pair ''occupancyMapQP'', pair ''geometryQP'', pair ''attributeQP'') of
        (Some occ, Some geo, Some attr) \<Rightarrow>
          and_then (normalize_from (Suc idx) rest) (\<lambda>normalized. Inr ((occ, geo, attr) # normalized))
      | _ \<Rightarrow>
          Inl (ValueError (''qp_pairs['' @ dec_digits idx
                 @ ''] missing occupancyMapQP and/or geometryQP and/or attributeQP'')))"
| "normalize_from idx (QSeq pair # rest) =
     (case pair of
        [occ, geo, attr] \<Rightarrow>
          and_then (normalize_from (Suc idx) rest) (\<lambda>normalized. Inr ((occ, geo, attr) # normalized))
      | _ \<Rightarrow>
          Inl (ValueError (''qp_pairs['' @ dec_digits idx
                 @ ''] must have exactly three entries (occ, geo, attr)'')))"
| "normalize_from idx (QOther ty # rest) =
     Inl (ValueError (''qp_pairs['' @ dec_digits idx
            @ ''] must be dict or (occ, geo, attr) tuple/list, got '' @ ty))"

definition normalize_qp_pairs :: "qp_entry list \<Rightarrow> error + qp_config list" where
  "normalize_qp_pairs qp_pairs =
     (if qp_pairs = [] then Inl (ValueError ''qp_pairs cannot be empty'')
      else normalize_from 0 qp_pairs)"

text \<open>The parameters of one tile: the base parameters, completed.\<close>

definition tile_params :: "params \<Rightarrow> int option \<Rightarrow> string \<Rightarrow> nat \<Rightarrow> nat \<Rightarrow> params" where
  "tile_params base_params threads_per_instance pattern start_frame frame_count =
     (let p0 = base_params;
          p1 = (case threads_per_instance of
                  None \<Rightarrow> p0
                | Some t \<Rightarrow> if t \<noteq> 0 then p0(''nbThread'' \<mapsto> PInt t) else p0);
          p2 = setdefault p1 ''uncompressedDataPath'' (PStr pattern);
          p3 = setdefault p2 ''startFrameNumber'' (PInt (int start_frame));
          p4 = setdefault p3 ''frameCount'' (PInt (int frame_count))
      in p4)"

text \<open>The \<open>for tile_dir in tile_dirs\<close> loop; a \<open>ValueError\<close> of a tile is raised again, wrapped.\<close>

fun tile_infos_of :: "params \<Rightarrow> int option \<Rightarrow> tile_dir list \<Rightarrow> error + (string \<times> params) list" where
  "tile_infos_of base_params threads_per_instance [] = Inr []"
| "tile_infos_of base_params threads_per_instance (td # tds) =
     (case derive_frame_sequence td of
        Inl (ValueError e) \<Rightarrow> Inl (ValueError (''Tile '' @ dir_name td @ '' is invalid: '' @ e))
      | Inl e \<Rightarrow> Inl e
      | Inr seq \<Rightarrow>
          and_then (tile_infos_of base_params threads_per_instance tds) (\<lambda>infos.
            Inr ((dir_name td,
                  tile_params base_params threads_per_instance (fst seq) (fst (snd seq))
                    (snd (snd seq))) # infos)))"

text \<open>A task: the index of its QP set, the tile directory, the tile's parameters, the QP set.\<close>

type_synonym task = "nat \<times> string \<times> params \<times> qp_config"

definition tasks_of :: "qp_config list \<Rightarrow> (string \<times> params) list \<Rightarrow> task list" where
  "tasks_of normalized_pairs tile_infos =
     concat (map (\<lambda>(qp_idx, qp). map (\<lambda>info. (qp_idx, fst info, snd info, qp)) tile_infos)
               (enumerate 0 normalized_pairs))"

text \<open>
  \<open>encode_tiles_with_qp_pairs\<close> up to the task list it builds: \<open>None\<close> when it returns
  early on a cancellation that was requested before the start. The file system and the
  stop event come as arguments: the path of the tiles root, whether it exists, the
  directories under it, and whether cancellation has been requested.
\<close>

definition encode_tiles_with_qp_pairs ::
  "string \<Rightarrow> bool \<Rightarrow> tile_dir list \<Rightarrow> qp_entry list \<Rightarrow> params \<Rightarrow> int option \<Rightarrow> bool
     \<Rightarrow> error + task list option" where
  "encode_tiles_with_qp_pairs tiles_root root_exists subdirs qp_pairs base_params threads_per_instance
       cancel_requested =
     and_then (normalize_qp_pairs qp_pairs) (\<lambda>normalized_pairs.
       if \<not> root_exists then Inl (FileNotFoundError (''tiles_root does not exist: '' @ tiles_root))
       else if cancel_requested then Inr None
       else
         (let tile_dirs = sort_key dir_name subdirs
          in if tile_dirs = [] then Inl (ValueError (''No tile directories found in '' @ tiles_root))
             else and_then (tile_infos_of base_params threads_per_instance tile_dirs) (\<lambda>tile_infos.
                    Inr (Some (tasks_of normalized_pairs tile_infos)))))"


text \<open>
  A valid entry of \<open>qp_pairs\<close> and the triple it stands for; a tile directory whose first
  \<open>.ply\<close> file, in sorted order, is numbered.
\<close>

fun qp_valid :: "qp_entry \<Rightarrow> bool" where
  "qp_valid (QDict pair) \<longleftrightarrow>
     pair ''occupancyMapQP'' \<noteq> None \<and> pair ''geometryQP'' \<noteq> None \<and> pair ''attributeQP'' \<noteq> None"
| "qp_valid (QSeq pair) \<longleftrightarrow> length pair = 3"
| "qp_valid (QOther ty) \<longleftrightarrow> False"

fun qp_of :: "qp_entry \<Rightarrow> qp_config" where
  "qp_of (QDict pair) =
     (the (pair ''occupancyMapQP''), the (pair ''geometryQP''), the (pair ''attributeQP''))"
| "qp_of (QSeq pair) = (pair ! 0, pair ! 1, pair ! 2)"
| "qp_of (QOther ty) = (0, 0, 0)"

definition first_frame_numbered :: "tile_dir \<Rightarrow> bool" where
  "first_frame_numbered td \<longleftrightarrow>
     (let frame_files = sort (glob_ply (dir_entries td))
      in frame_files \<noteq> [] \<and> re_prefix_digits (ply_stem (hd frame_files)) \<noteq> None)"

definition frames_f0000_f0009 :: "string list" where
  "frames_f0000_f0009 =
     [''f0000.ply'', ''f0001.ply'', ''f0002.ply'', ''f0003.ply'', ''f0004.ply'',
      ''f0005.ply'', ''f0006.ply'', ''f0007.ply'', ''f0008.ply'', ''f0009.ply'']"

section \<open>Spatial partitioner (tile_generator.py, tile_io.py)\<close>

text \<open>
  The part of \<open>_process_frame\<close> after the tile ids are assigned: the selection of each
  tile's rows, the placeholder of an empty tile, and the files written. The tile id of each
  row, which the source computes in floating point before that, is an argument here. The
  values of a frame are numbers; a finite floating-point value is the real number it
  stands for.
\<close>













text \<open>
  The number the text \<open>"%f" % v\<close> denotes: \<open>v\<close> rounded to six decimals, a tie to the even
  neighbour. The number \<open>"%d" % v\<close> denotes: \<open>v\<close> without its fraction.
\<close>

definition trunc :: "real \<Rightarrow> int" where
  "trunc v = (if 0 \<le> v then \<lfloor>v\<rfloor> else \<lceil>v\<rceil>)"

definition round_half_even :: "real \<Rightarrow> int" where
  "round_half_even v =
     (let f = \<lfloor>v\<rfloor>; d = v - of_int f
      in if d < 1 / 2 then f else if 1 / 2 < d then f + 1 else if even f then f else f + 1)"

definition fmt_f :: "real \<Rightarrow> real" where
  "fmt_f v = of_int (round_half_even (v * 1000000)) / 1000000"

definition fmt_d :: "real \<Rightarrow> real" where
  "fmt_d v = of_int (trunc v)"











section \<open>Properties of the unit parser\<close>

lemma size_len_word: "unat (drop_bit 5 (h::byte)) + 1 = size_len_of h"
  by (simp add: size_len_of_def drop_bit_eq_div unat_div)

lemma and_31_take_bit: "(w::byte) AND 0x1F = take_bit 5 w"
  by (simp add: take_bit_eq_mask mask_eq_exp_minus_1)

lemma unit_type_word: "unat (drop_bit 3 (p0::byte) AND 0x1F) = unat p0 div 8 mod 32"
  by (simp add: and_31_take_bit take_bit_eq_mod drop_bit_eq_div unat_div unat_mod)

lemma parse_v3c_units_Cons:
  "parse_v3c_units (header # rest) = parse_loop (header # rest) (size_len_of header) 1"
  by (simp add: parse_v3c_units_def size_len_word [symmetric])

lemma from_bytes_big_snoc:
  "from_bytes_big (bs @ [b]) = from_bytes_big bs * 256 + unat b"
  by (simp add: from_bytes_big_def)

lemma length_to_bytes_big [simp]: "length (to_bytes_big k n) = k"
  by (induction k arbitrary: n) auto

lemma from_to_bytes_big:
  "n < 256 ^ k \<Longrightarrow> from_bytes_big (to_bytes_big k n) = n"
proof (induction k arbitrary: n)
  case 0
  then show ?case by (simp add: from_bytes_big_def)
next
  case (Suc k)
  from Suc.prems have "n div 256 < 256 ^ k"
    by (simp add: less_mult_imp_div_less mult.commute)
  then have "from_bytes_big (to_bytes_big k (n div 256)) = n div 256"
    by (rule Suc.IH)
  moreover have "unat (of_nat (n mod 256) :: byte) = n mod 256"
    by (simp add: unat_of_nat)
  ultimately show ?case
    by (simp add: from_bytes_big_snoc)
qed

lemma slice_append_mid:
  "slice (pre @ xs @ post) (length pre) (length pre + length xs) = xs"
  by (simp add: slice_def)

lemma length_frame_unit [simp]: "length (frame_unit L p) = L + length p"
  by (simp add: frame_unit_def)

lemma size_len_of_pos: "0 < size_len_of h"
  by (simp add: size_len_of_def)

text \<open>One turn of the loop on a complete unit.\<close>

lemma parse_loop_unit:
  assumes ok: "unit_payload_ok L p"
  shows "parse_loop (pre @ frame_unit L p @ post) L (length pre)
           = ((unit_type_of p, frame_unit L p)
                # fst (parse_loop (pre @ frame_unit L p @ post) L (length pre + (L + length p))),
              snd (parse_loop (pre @ frame_unit L p @ post) L (length pre + (L + length p))))"
proof -
  let ?data = "pre @ frame_unit L p @ post"
  from ok obtain p0 pt where p: "p = p0 # pt" and plen: "length p < 256 ^ L"
    by (cases p) (auto simp: unit_payload_ok_def)
  have fp: "frame_unit L p = to_bytes_big L (length p) @ p"
    by (simp add: frame_unit_def)
  have s1: "slice ?data (length pre) (length pre + L) = to_bytes_big L (length p)"
    by (simp add: slice_def fp)
  have s2: "slice ?data (length pre + L) (length pre + L + length p) = p"
    using slice_append_mid [of "pre @ to_bytes_big L (length p)" p post]
    by (simp add: fp)
  have s3: "slice ?data (length pre) (length pre + L + length p) = frame_unit L p"
    using slice_append_mid [of pre "frame_unit L p" post]
    by (simp add: add.assoc)
  have sz: "from_bytes_big (to_bytes_big L (length p)) = length p"
    using plen by (rule from_to_bytes_big)
  have len: "length pre + L + length p \<le> length ?data"
    by simp
  have ut: "unat (drop_bit 3 p0 AND 0x1F) = unit_type_of p"
    by (simp add: unit_type_word unit_type_of_def p)
  show ?thesis
    apply (subst parse_loop.simps)
    using len
    apply (simp only: s1 s2 s3 sz Let_def)
    apply (simp add: p ut [unfolded p] add.assoc)
    done
qed

text \<open>The loop over a run of complete units, whatever follows them.\<close>

lemma parse_loop_frames:
  assumes ok: "\<forall>p \<in> set ps. unit_payload_ok L p"
  shows "parse_loop (pre @ concat (map (frame_unit L) ps) @ post) L (length pre)
           = (map (\<lambda>p. (unit_type_of p, frame_unit L p)) ps
                @ fst (parse_loop (pre @ concat (map (frame_unit L) ps) @ post) L
                         (length pre + length (concat (map (frame_unit L) ps)))),
              snd (parse_loop (pre @ concat (map (frame_unit L) ps) @ post) L
                         (length pre + length (concat (map (frame_unit L) ps)))))"
  using ok
proof (induction ps arbitrary: pre)
  case Nil
  show ?case by simp
next
  case (Cons p ps)
  let ?rest = "concat (map (frame_unit L) ps)"
  from Cons.prems have okp: "unit_payload_ok L p"
    and ok': "\<forall>q \<in> set ps. unit_payload_ok L q" by auto
  have step: "parse_loop (pre @ frame_unit L p @ ?rest @ post) L (length pre)
           = ((unit_type_of p, frame_unit L p)
                # fst (parse_loop (pre @ frame_unit L p @ ?rest @ post) L (length pre + (L + length p))),
              snd (parse_loop (pre @ frame_unit L p @ ?rest @ post) L (length pre + (L + length p))))"
    using parse_loop_unit [OF okp, of pre "?rest @ post"] .
  have IH: "parse_loop (pre @ frame_unit L p @ ?rest @ post) L (length pre + (L + length p))
      = (map (\<lambda>p. (unit_type_of p, frame_unit L p)) ps
                @ fst (parse_loop (pre @ frame_unit L p @ ?rest @ post) L
                         (length pre + (L + length p) + length ?rest)),
              snd (parse_loop (pre @ frame_unit L p @ ?rest @ post) L
                         (length pre + (L + length p) + length ?rest)))"
    using Cons.IH [OF ok', of "pre @ frame_unit L p"]
    by (simp add: add.assoc)
  show ?case
    by (simp add: step IH add.assoc)
qed

lemma parse_loop_stop:
  "length data < offset + L \<Longrightarrow> parse_loop data L offset = ([], None)"
  by (subst parse_loop.simps) simp

lemma parse_loop_truncated:
  "offset + L \<le> length data \<Longrightarrow>
   length data < offset + L + from_bytes_big (slice data offset (offset + L)) \<Longrightarrow>
   parse_loop data L offset = ([], Some (ValueError ''Truncated unit''))"
  by (subst parse_loop.simps) (simp add: Let_def)

text \<open>
  What the parser yields on a stream of complete units followed by any bytes: the units, then
  whatever the loop makes of the bytes after them.
\<close>

lemma parse_sample_stream_tail:
  assumes ok: "\<forall>p \<in> set payloads. unit_payload_ok (size_len_of header) p"
  shows "parse_v3c_units (sample_stream header payloads @ tail)
      = (map (\<lambda>p. (unit_type_of p, frame_unit (size_len_of header) p)) payloads
           @ fst (parse_loop (sample_stream header payloads @ tail) (size_len_of header)
                    (length (sample_stream header payloads))),
         snd (parse_loop (sample_stream header payloads @ tail) (size_len_of header)
                    (length (sample_stream header payloads))))"
  using parse_loop_frames [OF ok, of "[header]" tail]
  by (simp add: sample_stream_def parse_v3c_units_Cons)

lemma example_payloads_ok:
  "\<forall>p \<in> set [[0x08, 7], [0x10 :: byte]]. unit_payload_ok (size_len_of 0) p"
  by (simp add: unit_payload_ok_def size_len_of_def)

lemma example_stream:
  "sample_stream 0 [[0x08, 7], [0x10]] = [0, 2, 8, 7, 1, 16]"
  by code_simp

text \<open>A unit of declared size 0 has no type byte: reading it raises.\<close>

lemma parse_empty_payload: "parse_v3c_units [0x00, 0x00] = ([], Some IndexError)"
  by code_simp

text \<open>
  C1. A well-formed track stream is a header byte followed by complete units, each an
  \<open>L\<close>-byte big-endian size and that many payload bytes, the payload holding at least the
  byte that carries the unit type. On such a stream the parser ends normally, yields one
  unit per framed unit, and the stream's leading byte followed by the yielded
  \<open>fullUnitBytes\<close> in order is the stream itself.
\<close>

theorem parse_combine_roundtrip:
  assumes "\<forall>p \<in> set payloads. unit_payload_ok (size_len_of header) p"
  shows "\<exists>units. parse_v3c_units (sample_stream header payloads) = (units, None)
           \<and> length units = length payloads
           \<and> take 1 (sample_stream header payloads) @ concat (map snd units)
               = sample_stream header payloads"
proof -
  let ?L = "size_len_of header"
  let ?units = "map (\<lambda>p. (unit_type_of p, frame_unit ?L p)) payloads"
  have stop: "parse_loop (sample_stream header payloads) ?L (length (sample_stream header payloads))
      = ([], None)"
    by (rule parse_loop_stop) (simp add: size_len_of_pos)
  have "parse_v3c_units (sample_stream header payloads) = (?units, None)"
    using parse_sample_stream_tail [OF assms, of "[]"] by (simp add: stop)
  moreover have "take 1 (sample_stream header payloads) @ concat (map snd ?units)
      = sample_stream header payloads"
    by (simp add: sample_stream_def comp_def)
  ultimately show ?thesis by simp
qed

theorem parse_combine_roundtrip_witness:
  "unit_payload_ok (size_len_of 0) [0x08, 7] \<and> unit_payload_ok (size_len_of 0) [0x10]
   \<and> sample_stream 0 [[0x08, 7], [0x10]] = [0, 2, 8, 7, 1, 16]
   \<and> (\<exists>units. parse_v3c_units [0, 2, 8, 7, 1, 16] = (units, None)
        \<and> length units = Suc (Suc 0)
        \<and> take 1 [0, 2, 8, 7, 1, 16 :: byte] @ concat (map snd units) = [0, 2, 8, 7, 1, 16])"
  using parse_combine_roundtrip [OF example_payloads_ok] example_payloads_ok
  by (simp add: example_stream)

lemma slice_length: "b \<le> length xs \<Longrightarrow> length (slice xs a b) = b - a"
  by (simp add: slice_def)

lemma slice_take: "take k (slice xs a (a + (k + n))) = slice xs a (a + k)"
  by (simp add: slice_def min_def)

lemma slice_nth:
  "slice xs (a + k) (a + k + n) = y # ys \<Longrightarrow> slice xs a (a + k + n) ! k = y"
proof -
  assume h: "slice xs (a + k) (a + k + n) = y # ys"
  then have n: "0 < n" by (cases n) (auto simp: slice_def)
  have "slice xs (a + k) (a + k + n) = drop k (slice xs a (a + k + n))"
    by (simp add: slice_def drop_take add.commute)
  with h have d: "drop k (slice xs a (a + k + n)) = y # ys" by simp
  then have "hd (drop k (slice xs a (a + k + n))) = y" by simp
  moreover have "k < length (slice xs a (a + k + n))"
    using d by (cases "k < length (slice xs a (a + k + n))") auto
  ultimately show ?thesis by (simp add: hd_drop_conv_nth)
qed

lemma parse_loop_step:
  assumes fit: "offset + L \<le> length data"
    and S: "S = from_bytes_big (slice data offset (offset + L))"
    and inb: "offset + L + S \<le> length data"
    and pl: "slice data (offset + L) (offset + L + S) = p0 # pt"
  shows "parse_loop data L offset
      = ((unat p0 div 8 mod 32, slice data offset (offset + L + S))
           # fst (parse_loop data L (offset + L + S)),
         snd (parse_loop data L (offset + L + S)))"
  apply (subst parse_loop.simps)
  using fit inb pl
  apply (simp add: Let_def S [symmetric] unit_type_word)
  done

lemma parse_loop_units_decoded:
  "u \<in> set (fst (parse_loop data L offset)) \<Longrightarrow> unit_decoded L u"
proof (induction data L offset rule: parse_loop.induct)
  case (1 data size_len offset)
  let ?S = "from_bytes_big (slice data offset (offset + size_len))"
  show ?case
  proof (cases "offset + size_len \<le> length data \<and> offset + size_len + ?S \<le> length data
                 \<and> slice data (offset + size_len) (offset + size_len + ?S) \<noteq> []")
    case False
    with "1.prems" show ?thesis
      by (subst (asm) parse_loop.simps) (auto simp: Let_def split: if_splits list.splits)
  next
    case True
    then obtain p0 pt where fit: "offset + size_len \<le> length data"
      and inb: "offset + size_len + ?S \<le> length data"
      and pl: "slice data (offset + size_len) (offset + size_len + ?S) = p0 # pt"
      by (cases "slice data (offset + size_len) (offset + size_len + ?S)") auto
    let ?full = "slice data offset (offset + size_len + ?S)"
    from "1.prems" parse_loop_step [OF fit refl inb pl]
    consider "u = (unat p0 div 8 mod 32, ?full)"
      | "u \<in> set (fst (parse_loop data size_len (offset + size_len + ?S)))"
      by auto
    then show ?thesis
    proof cases
      case 1
      from pl have Spos: "0 < ?S" by (cases ?S) (auto simp: slice_def)
      have len: "length ?full = size_len + ?S"
        using inb by (simp add: slice_length)
      have tk: "take size_len ?full = slice data offset (offset + size_len)"
        using slice_take [of size_len data offset ?S] by (simp add: add.assoc)
      have nth: "?full ! size_len = p0"
        using slice_nth [OF pl] .
      show ?thesis
        using Spos by (simp add: 1 unit_decoded_def len tk nth)
    next
      case 2
      have "\<not> length data < offset + size_len + ?S" using inb by simp
      from "1.IH" [OF fit refl refl refl refl this pl refl 2]
      show ?thesis .
    qed
  qed
qed


lemma slice_Cons_Suc: "slice (x # xs) (Suc a) (Suc b) = slice xs a b"
  by (simp add: slice_def)

lemma slice_0: "slice xs 0 b = take b xs"
  by (simp add: slice_def)

text \<open>
  The units the loop yields from \<open>offset\<close> on are the bytes of the stream from there, one
  unit after the other, and the loop stops only where \<open>stops_at\<close> allows.
\<close>

lemma parse_loop_consumes:
  assumes L: "0 < L"
  shows "concat (map snd (fst (parse_loop data L offset)))
           = take (length (concat (map snd (fst (parse_loop data L offset))))) (drop offset data)
       \<and> stops_at L
           (drop (offset + length (concat (map snd (fst (parse_loop data L offset))))) data)
           (snd (parse_loop data L offset))"
  using L
proof (induction data L offset rule: parse_loop.induct)
  case (1 data size_len offset)
  note pos = \<open>0 < size_len\<close>
  let ?S = "from_bytes_big (slice data offset (offset + size_len))"
  have tk: "take size_len (drop offset data) = slice data offset (offset + size_len)"
    by (simp add: slice_def)
  show ?case
  proof (cases "offset + size_len \<le> length data")
    case False
    then have "parse_loop data size_len offset = ([], None)"
      by (subst parse_loop.simps) simp
    with False pos show ?thesis by (simp add: stops_at_def)
  next
    case fit: True
    show ?thesis
    proof (cases "offset + size_len + ?S \<le> length data")
      case False
      then have r: "parse_loop data size_len offset = ([], Some (ValueError ''Truncated unit''))"
        using fit by (intro parse_loop_truncated) simp_all
      from False fit have "?S \<noteq> 0" by (intro notI) simp
      moreover from fit have "size_len \<le> length data - offset" by linarith
      moreover from False pos have "length data - offset < size_len + ?S" by linarith
      ultimately show ?thesis by (simp add: r stops_at_def tk)
    next
      case inb: True
      show ?thesis
      proof (cases "slice data (offset + size_len) (offset + size_len + ?S)")
        case Nil
        then have S0: "?S = 0" using inb by (auto simp: slice_def)
        have "parse_loop data size_len offset = ([], Some IndexError)"
          using fit inb Nil by (subst parse_loop.simps) (simp add: Let_def)
        moreover from fit have "size_len \<le> length data - offset" by linarith
        ultimately show ?thesis using S0 by (simp add: stops_at_def tk)
      next
        case (Cons p0 pt)
        let ?end = "offset + size_len + ?S"
        let ?full = "slice data offset ?end"
        let ?us = "fst (parse_loop data size_len ?end)"
        let ?n = "length (concat (map snd ?us))"
        have step: "parse_loop data size_len offset
            = ((unat p0 div 8 mod 32, ?full) # ?us, snd (parse_loop data size_len ?end))"
          using parse_loop_step [OF fit refl inb Cons] .
        have nl: "\<not> length data < ?end" using inb by simp
        from "1.IH" [OF fit refl refl refl refl nl Cons refl pos]
        have IHc: "concat (map snd ?us) = take ?n (drop ?end data)"
          and IHs: "stops_at size_len (drop (?end + ?n) data) (snd (parse_loop data size_len ?end))"
          by simp_all
        have len: "length ?full = size_len + ?S"
          using inb by (simp add: slice_length)
        have full: "?full = take (size_len + ?S) (drop offset data)"
          by (simp add: slice_def add.assoc)
        have cat: "?full @ concat (map snd ?us)
            = take (size_len + ?S + ?n) (drop offset data)"
        proof -
          have "take (size_len + ?S + ?n) (drop offset data)
              = take (size_len + ?S) (drop offset data)
                  @ take ?n (drop (size_len + ?S) (drop offset data))"
            by (rule take_add)
          also have "drop (size_len + ?S) (drop offset data) = drop ?end data"
            by (simp add: add.assoc add.commute)
          finally show ?thesis using IHc full by simp
        qed
        have c1: "concat (map snd (fst (parse_loop data size_len offset)))
            = ?full @ concat (map snd ?us)"
          by (simp only: step fst_conv list.map snd_conv concat.simps)
        have ln: "length (concat (map snd (fst (parse_loop data size_len offset))))
            = size_len + ?S + ?n"
          by (simp only: c1 length_append len)
        have e1: "snd (parse_loop data size_len offset) = snd (parse_loop data size_len ?end)"
          by (simp only: step snd_conv)
        have off: "offset + (size_len + ?S + ?n) = ?end + ?n" by simp
        show ?thesis
          unfolding ln e1 off
          unfolding c1
          using cat IHs by (intro conjI)
      qed
    qed
  qed
qed


text \<open>
  C3. The empty stream yields nothing and is no error. On a non-empty stream, with \<open>L\<close> the
  top 3 bits of the first byte plus 1: every unit yielded carries its own \<open>L\<close>-byte
  big-endian size prefix in front of its payload and has as type bits 3 to 7 of its first
  payload byte; the units yielded are, one after the other, the bytes of the stream after
  the header byte; and the parser stops only when fewer than \<open>L\<close> bytes are left after them,
  or with an exception at a unit of size 0 or one that runs past the end. When a first unit
  of size \<open>S > 0\<close> fits, it is the first one yielded, with the \<open>L + S\<close> bytes after the
  header as its bytes. On a stream of complete units followed by fewer than \<open>L\<close> bytes,
  exactly one pair is yielded for each unit, in order.
\<close>

theorem parse_v3c_units_decodes:
  assumes L: "L = unat header div 32 + 1"
    and S: "S = from_bytes_big (take L rest)"
    and units: "units = fst (parse_v3c_units (header # rest))"
    and tail: "tail = drop (length (concat (map snd units))) rest"
  shows "parse_v3c_units [] = ([], None)
    \<and> (\<forall>u \<in> set units. unit_decoded L u)
    \<and> concat (map snd units) = take (length (concat (map snd units))) rest
    \<and> stops_at L tail (snd (parse_v3c_units (header # rest)))
    \<and> (L \<le> length rest \<and> 0 < S \<and> L + S \<le> length rest \<longrightarrow>
         (\<exists>more e. parse_v3c_units (header # rest)
            = ((unat (rest ! L) div 8 mod 32, take (L + S) rest) # more, e)))
    \<and> ((\<forall>p \<in> set payloads. unit_payload_ok L p) \<and> length extra < L \<longrightarrow>
         parse_v3c_units (sample_stream header payloads @ extra)
           = (map (\<lambda>p. (unit_type_of p, frame_unit L p)) payloads, None))"
proof (intro conjI impI)
  show "parse_v3c_units [] = ([], None)"
    by (simp add: parse_v3c_units_def)
next
  show "\<forall>u \<in> set units. unit_decoded L u"
    using parse_loop_units_decoded [of _ "header # rest" L 1]
    by (simp add: units parse_v3c_units_Cons size_len_of_def L)
next
  have p: "parse_v3c_units (header # rest) = parse_loop (header # rest) L 1"
    by (simp add: parse_v3c_units_Cons size_len_of_def L)
  have pos: "0 < L" by (simp add: L)
  from parse_loop_consumes [OF pos, of "header # rest" 1]
  show "concat (map snd units) = take (length (concat (map snd units))) rest"
    by (simp add: units p)
next
  have p: "parse_v3c_units (header # rest) = parse_loop (header # rest) L 1"
    by (simp add: parse_v3c_units_Cons size_len_of_def L)
  have pos: "0 < L" by (simp add: L)
  from parse_loop_consumes [OF pos, of "header # rest" 1]
  show "stops_at L tail (snd (parse_v3c_units (header # rest)))"
    by (simp add: units tail p)
next
  assume a: "L \<le> length rest \<and> 0 < S \<and> L + S \<le> length rest"
  let ?data = "header # rest"
  have fit: "1 + L \<le> length ?data" using a by simp
  have sz: "S = from_bytes_big (slice ?data 1 (1 + L))"
    by (simp add: S slice_Cons_Suc slice_0)
  have inb: "1 + L + S \<le> length ?data" using a by simp
  have ne: "take S (drop L rest) \<noteq> []" using a by auto
  have pl: "slice ?data (1 + L) (1 + L + S) = rest ! L # tl (take S (drop L rest))"
  proof -
    have "slice ?data (1 + L) (1 + L + S) = take S (drop L rest)"
      by (simp add: slice_def)
    moreover have "hd (take S (drop L rest)) = rest ! L"
      using a by (simp add: hd_drop_conv_nth)
    ultimately show ?thesis using ne by (metis list.collapse)
  qed
  have full: "slice ?data 1 (1 + L + S) = take (L + S) rest"
    by (simp add: slice_def)
  have "parse_loop ?data L 1
      = ((unat (rest ! L) div 8 mod 32, take (L + S) rest)
           # fst (parse_loop ?data L (1 + L + S)), snd (parse_loop ?data L (1 + L + S)))"
    using parse_loop_step [OF fit sz inb pl] by (simp only: full)
  moreover have "parse_v3c_units ?data = parse_loop ?data L 1"
    by (simp add: parse_v3c_units_Cons size_len_of_def L)
  ultimately show "\<exists>more e. parse_v3c_units (header # rest)
            = ((unat (rest ! L) div 8 mod 32, take (L + S) rest) # more, e)"
    by simp
next
  assume a: "(\<forall>p \<in> set payloads. unit_payload_ok L p) \<and> length extra < L"
  have Lh: "L = size_len_of header" by (simp add: L size_len_of_def)
  from a have ok: "\<forall>p \<in> set payloads. unit_payload_ok (size_len_of header) p"
    by (simp add: Lh)
  from a have "parse_loop (sample_stream header payloads @ extra) (size_len_of header)
      (length (sample_stream header payloads)) = ([], None)"
    by (intro parse_loop_stop) (simp add: Lh)
  then show "parse_v3c_units (sample_stream header payloads @ extra)
           = (map (\<lambda>p. (unit_type_of p, frame_unit L p)) payloads, None)"
    using parse_sample_stream_tail [OF ok, of extra] by (simp add: Lh)
qed

lemma example_parse: "parse_v3c_units [0, 2, 8, 7, 1, 16] = ([(1, [2, 8, 7]), (2, [1, 16])], None)"
  by code_simp

theorem parse_v3c_units_decodes_witness:
  "parse_v3c_units [] = ([], None)
   \<and> unit_decoded 1 (1, [2, 8, 7]) \<and> unit_decoded 1 (2, [1, 16])
   \<and> concat (map snd [(1 :: nat, [2, 8, 7]), (2, [1, 16 :: byte])]) = take 5 [2, 8, 7, 1, 16]
   \<and> stops_at 1 [] (snd (parse_v3c_units [0, 2, 8, 7, 1, 16]))
   \<and> (\<exists>more e. parse_v3c_units [0, 2, 8, 7, 1, 16] = ((1, [2, 8, 7]) # more, e))
   \<and> unit_payload_ok 1 [8, 7] \<and> unit_payload_ok 1 [16]
   \<and> parse_v3c_units (sample_stream 0 [[8, 7], [16]] @ [])
       = ([(unit_type_of [8, 7], frame_unit 1 [8, 7]), (unit_type_of [16], frame_unit 1 [16])],
          None)"
proof -
  have h1: "(1 :: nat) = unat (0 :: byte) div 32 + 1" by simp
  have h2: "(2 :: nat) = from_bytes_big (take 1 [2, 8, 7, 1, 16])"
    by (simp add: from_bytes_big_def)
  have h3: "[(1 :: nat, [2, 8, 7]), (2, [1, 16 :: byte])]
      = fst (parse_v3c_units (0 # [2, 8, 7, 1, 16]))"
    by (simp add: example_parse)
  have h4: "([] :: bytes)
      = drop (length (concat (map snd [(1 :: nat, [2, 8, 7]), (2, [1, 16 :: byte])])))
          [2, 8, 7, 1, 16]"
    by simp
  have ok: "unit_payload_ok 1 [8, 7] \<and> unit_payload_ok 1 [16]"
    by (simp add: unit_payload_ok_def)
  from parse_v3c_units_decodes [OF h1 h2 h3 h4, of "[[8, 7], [16]]" "[]"] ok
  show ?thesis by simp
qed

text \<open>
  C2, as stated, fails: with header byte \<open>0x20\<close> the size field is 2 bytes wide; one byte
  remains, fewer than \<open>L\<close>, and the parser ends normally.
\<close>

theorem parse_short_size_field_counterexample:
  "parse_v3c_units [0x20, 0x01] = ([], None)"
  by code_simp

text \<open>
  C2, amended. After any complete units: when fewer than \<open>L\<close> bytes remain (none
  included) the parser ends normally, the leftover bytes ignored; when a size field is
  there and the declared size extends past the end of the stream, the parser yields the
  complete units before it and then raises the truncation error. A stream with header byte
  \<open>0x00\<close> and a unit of declared size 5 with only 3 bytes remaining raises it.
\<close>

theorem parse_truncation:
  assumes ok: "\<forall>p \<in> set payloads. unit_payload_ok (size_len_of header) p"
    and units: "units = map (\<lambda>p. (unit_type_of p, frame_unit (size_len_of header) p)) payloads"
  shows "(length tail < size_len_of header \<longrightarrow>
            parse_v3c_units (sample_stream header payloads @ tail) = (units, None))
    \<and> (length sz = size_len_of header \<and> length body < from_bytes_big sz \<longrightarrow>
            parse_v3c_units (sample_stream header payloads @ sz @ body)
              = (units, Some (ValueError ''Truncated unit'')))
    \<and> parse_v3c_units [0x00, 0x05, a, b, c] = ([], Some (ValueError ''Truncated unit''))"
proof (intro conjI impI)
  assume "length tail < size_len_of header"
  then have "parse_loop (sample_stream header payloads @ tail) (size_len_of header)
      (length (sample_stream header payloads)) = ([], None)"
    by (intro parse_loop_stop) simp
  then show "parse_v3c_units (sample_stream header payloads @ tail) = (units, None)"
    using parse_sample_stream_tail [OF ok, of tail] by (simp add: units)
next
  assume a: "length sz = size_len_of header \<and> length body < from_bytes_big sz"
  let ?s = "sample_stream header payloads"
  have "slice (?s @ sz @ body) (length ?s) (length ?s + size_len_of header) = sz"
    using a slice_append_mid [of ?s sz body] by simp
  with a have "parse_loop (?s @ sz @ body) (size_len_of header) (length ?s)
      = ([], Some (ValueError ''Truncated unit''))"
    by (intro parse_loop_truncated) simp_all
  then show "parse_v3c_units (?s @ sz @ body) = (units, Some (ValueError ''Truncated unit''))"
    using parse_sample_stream_tail [OF ok, of "sz @ body"] by (simp add: units)
next
  have "parse_loop [0x00, 0x05, a, b, c] 1 1 = ([], Some (ValueError ''Truncated unit''))"
    by (rule parse_loop_truncated) (simp_all add: slice_def from_bytes_big_def)
  then show "parse_v3c_units [0x00, 0x05, a, b, c] = ([], Some (ValueError ''Truncated unit''))"
    by (simp add: parse_v3c_units_Cons size_len_of_def)
qed

lemma example_payload_ok: "\<forall>p \<in> set [[0x08, 7 :: byte]]. unit_payload_ok (size_len_of 0) p"
  by (simp add: unit_payload_ok_def size_len_of_def)

lemma example_stream1: "sample_stream 0 [[0x08, 7]] = [0, 2, 8, 7]"
  by code_simp

theorem parse_truncation_witness:
  "unit_payload_ok (size_len_of 0) [0x08, 7]
   \<and> length ([] :: bytes) < size_len_of 0
   \<and> parse_v3c_units [0, 2, 8, 7] = ([(1, [2, 8, 7])], None)
   \<and> length [5 :: byte] = size_len_of 0 \<and> length [1, 2, 3 :: byte] < from_bytes_big [5]
   \<and> parse_v3c_units [0, 2, 8, 7, 5, 1, 2, 3] = ([(1, [2, 8, 7])], Some (ValueError ''Truncated unit''))
   \<and> parse_v3c_units [0x00, 0x05, 1, 2, 3] = ([], Some (ValueError ''Truncated unit''))"
  using parse_truncation [OF example_payload_ok refl, of "[]" "[5]" "[1, 2, 3]" 1 2 3]
    example_payload_ok
  by (simp add: example_stream1 size_len_of_def from_bytes_big_def unit_type_of_def frame_unit_def)

section \<open>Properties of the segment multiplexer\<close>

lemma and_then_Inr_iff: "and_then r f = Inr y \<longleftrightarrow> (\<exists>x. r = Inr x \<and> f x = Inr y)"
  by (cases r) (simp_all add: and_then_def)

lemma py_list_Inr_iff: "py_list g = Inr us \<longleftrightarrow> g = (us, None)"
  by (cases g) (auto simp: py_list_def split: option.splits)

lemma index_Inr_iff: "index xs i = Inr x \<longleftrightarrow> i < length xs \<and> x = xs ! i"
  by (auto simp: index_def)

lemma two_units_nonempty: "two_units d \<Longrightarrow> d \<noteq> []"
  by (auto simp: two_units_def parse_v3c_units_def)

lemma combine_segment_Inr_iff:
  "combine_segment a b c d = Inr out \<longleftrightarrow>
     two_units a \<and> two_units b \<and> two_units c \<and> two_units d
     \<and> out = combined_segment a b c d"
proof
  assume h: "combine_segment a b c d = Inr out"
  then obtain au bu cu du where
    pa: "parse_v3c_units a = (au, None)" and pb: "parse_v3c_units b = (bu, None)"
    and pc: "parse_v3c_units c = (cu, None)" and pd: "parse_v3c_units d = (du, None)"
    and la: "1 < length au" and lb: "1 < length bu" and lc: "1 < length cu" and ld: "1 < length du"
    and a0: "0 < length a"
    and out: "out = [a ! 0] @ snd (au ! 0) @ snd (au ! 1) @ snd (bu ! 1) @ snd (cu ! 1) @ snd (du ! 1)"
    unfolding combine_segment_def and_then_Inr_iff py_list_Inr_iff index_Inr_iff
    by auto
  from a0 have "take 1 a = [a ! 0]" by (cases a) auto
  with pa pb pc pd la lb lc ld out
  show "two_units a \<and> two_units b \<and> two_units c \<and> two_units d
     \<and> out = combined_segment a b c d"
    by (simp add: two_units_def unit_at_def combined_segment_def)
next
  assume h: "two_units a \<and> two_units b \<and> two_units c \<and> two_units d
     \<and> out = combined_segment a b c d"
  then have "a \<noteq> []" by (simp add: two_units_nonempty)
  then have t: "take (Suc 0) a = [a ! 0]" and a0: "0 < length a" by (cases a; simp)+
  obtain au bu cu du where
    pa: "parse_v3c_units a = (au, None)" and pb: "parse_v3c_units b = (bu, None)"
    and pc: "parse_v3c_units c = (cu, None)" and pd: "parse_v3c_units d = (du, None)"
    and la: "1 < length au" and lb: "1 < length bu" and lc: "1 < length cu" and ld: "1 < length du"
    using h unfolding two_units_def
    by (metis prod.collapse Suc_1 Suc_le_eq)
  have "combine_segment a b c d
      = Inr ([a ! 0] @ snd (au ! 0) @ snd (au ! 1) @ snd (bu ! 1) @ snd (cu ! 1) @ snd (du ! 1))"
    unfolding combine_segment_def and_then_Inr_iff py_list_Inr_iff index_Inr_iff
    using pa pb pc pd la lb lc ld a0 by auto
  also have "\<dots> = Inr out"
    using h by (simp add: combined_segment_def unit_at_def pa pb pc pd t)
  finally show "combine_segment a b c d = Inr out" .
qed


lemma combine_loop_step:
  "i < n \<Longrightarrow> combine_segment (atlas ! i) (occp ! i) (geom ! i) (attr ! i) = Inr out \<Longrightarrow>
   combine_loop atlas occp geom attr n i
     = ((seg_name i, out) # fst (combine_loop atlas occp geom attr n (Suc i)),
        snd (combine_loop atlas occp geom attr n (Suc i)))"
  by (subst combine_loop.simps) (simp add: Let_def)


lemma combine_loop_done:
  "\<not> i < n \<Longrightarrow> combine_loop atlas occp geom attr n i = ([], None)"
  by (subst combine_loop.simps) simp



text \<open>When every file has its two units the loop writes every segment and ends normally.\<close>

lemma combine_loop_all:
  "\<forall>j. i \<le> j \<and> j < n \<longrightarrow> two_units (atlas ! j) \<and> two_units (occp ! j)
      \<and> two_units (geom ! j) \<and> two_units (attr ! j) \<Longrightarrow>
   combine_loop atlas occp geom attr n i
     = (map (\<lambda>j. (seg_name j, combined_segment (atlas ! j) (occp ! j) (geom ! j) (attr ! j)))
          [i..<n], None)"
proof (induction atlas occp geom attr n i rule: combine_loop.induct)
  case (1 atlas occp geom attr n i)
  show ?case
  proof (cases "i < n")
    case False
    then show ?thesis by (simp add: combine_loop_done)
  next
    case True
    let ?out = "combined_segment (atlas ! i) (occp ! i) (geom ! i) (attr ! i)"
    have seg: "combine_segment (atlas ! i) (occp ! i) (geom ! i) (attr ! i) = Inr ?out"
      using "1.prems" True by (simp add: combine_segment_Inr_iff)
    have "\<forall>j. Suc i \<le> j \<and> j < n \<longrightarrow> two_units (atlas ! j) \<and> two_units (occp ! j)
      \<and> two_units (geom ! j) \<and> two_units (attr ! j)"
      using "1.prems" by simp
    from "1.IH" [OF True seg this] combine_loop_step [OF True seg] True
    show ?thesis by (simp add: upt_conv_Cons)
  qed
qed







lemma example_two_units: "two_units [0, 2, 8, 7, 1, 16]"
  by (simp add: two_units_def example_parse)






text \<open>
  C5. When the four lists of track files differ in length the run ends with the
  segment-count error and has written nothing, whatever the files hold.
\<close>

theorem combine_count_mismatch:
  assumes "\<not> (length atlas = length occp \<and> length occp = length geom
              \<and> length geom = length attr)"
  shows "combine_per_segment atlas occp geom attr
           = ([], Some (RuntimeError ''Segment count mismatch across tracks''))"
  using assms by (simp add: combine_per_segment_def)

theorem combine_count_mismatch_witness:
  "combine_per_segment [[], [], []] [[], [], []] [[], [], []] [[], []]
     = ([], Some (RuntimeError ''Segment count mismatch across tracks''))"
  using combine_count_mismatch [of "[[], [], []]" "[[], [], []]" "[[], [], []]" "[[], []]"]
  by simp

text \<open>
  C10. When each of the \<open>n\<close> files of each track parses to at least two units, the run
  ends normally and writes, for every index, the positional concatenation; nothing is
  asked of the unit types the payloads carry.
\<close>

theorem combine_by_position:
  assumes len: "length atlas = n" "length occp = n" "length geom = n" "length attr = n"
    and two: "\<forall>d \<in> set atlas \<union> set occp \<union> set geom \<union> set attr. two_units d"
  shows "combine_per_segment atlas occp geom attr
     = (map (\<lambda>i. (seg_name i,
                  take 1 (atlas ! i) @ unit_at (atlas ! i) 0 @ unit_at (atlas ! i) 1
                    @ unit_at (occp ! i) 1 @ unit_at (geom ! i) 1 @ unit_at (attr ! i) 1))
          [0..<n], None)"
proof -
  have "\<forall>j. 0 \<le> j \<and> j < n \<longrightarrow> two_units (atlas ! j) \<and> two_units (occp ! j)
      \<and> two_units (geom ! j) \<and> two_units (attr ! j)"
    using len two by (auto simp: nth_mem)
  from combine_loop_all [OF this] len show ?thesis
    by (simp add: combine_per_segment_def combined_segment_def)
qed

theorem combine_by_position_witness:
  "two_units [0, 2, 8, 7, 1, 16]
   \<and> fst (parse_v3c_units [0, 2, 8, 7, 1, 16]) = [(1, [2, 8, 7]), (2, [1, 16])]
   \<and> combine_per_segment [[0, 2, 8, 7, 1, 16]] [[0, 2, 8, 7, 1, 16]] [[0, 2, 8, 7, 1, 16]]
       [[0, 2, 8, 7, 1, 16]]
     = ([(seg_name 0, [0, 2, 8, 7, 1, 16, 1, 16, 1, 16, 1, 16])], None)"
  using combine_by_position [of "[[0, 2, 8, 7, 1, 16]]" 1 "[[0, 2, 8, 7, 1, 16]]"
      "[[0, 2, 8, 7, 1, 16]]" "[[0, 2, 8, 7, 1, 16]]"] example_two_units
  by (simp add: unit_at_def example_parse)

section \<open>Properties of the job graph builder\<close>

lemma normalize_from_valid:
  "\<forall>q \<in> set qs. qp_valid q \<Longrightarrow> normalize_from idx qs = Inr (map qp_of qs)"
proof (induction qs arbitrary: idx)
  case Nil
  show ?case by simp
next
  case (Cons q qs)
  then have IH: "normalize_from (Suc idx) qs = Inr (map qp_of qs)" by simp
  from Cons.prems have v: "qp_valid q" by simp
  show ?case
  proof (cases q)
    case (QDict pair)
    with v IH show ?thesis by (auto simp: and_then_def)
  next
    case (QSeq pair)
    with v obtain a b c where "pair = [a, b, c]"
      by (cases pair; simp; cases "tl pair"; simp; cases "tl (tl pair)"; auto)
    with QSeq IH show ?thesis by (simp add: and_then_def)
  next
    case (QOther ty)
    with v show ?thesis by simp
  qed
qed

lemma scan_frames_grows:
  "length idxs \<le> length (snd (scan_frames fps width idxs))"
proof (induction fps arbitrary: width idxs)
  case Nil
  show ?case by simp
next
  case (Cons fp fps)
  show ?case
  proof (cases "re_prefix_digits (ply_stem fp)")
    case None
    with Cons.IH [of idxs width] show ?thesis by simp
  next
    case (Some m)
    with Cons.IH [of "idxs @ [undec (snd m)]" "max width (length (snd m))"]
    show ?thesis by simp
  qed
qed

lemma scan_frames_first:
  "re_prefix_digits (ply_stem fp) = Some m \<Longrightarrow> snd (scan_frames (fp # fps) width []) \<noteq> []"
  using scan_frames_grows [of "[undec (snd m)]" fps "max width (length (snd m))"]
  by auto

lemma derive_frame_sequence_ok:
  assumes "first_frame_numbered td"
  shows "\<exists>seq. derive_frame_sequence td = Inr seq"
proof -
  let ?ff = "sort (glob_ply (dir_entries td))"
  from assms obtain fp fps m where ff: "?ff = fp # fps"
    and m: "re_prefix_digits (ply_stem fp) = Some m"
    by (cases ?ff) (auto simp: first_frame_numbered_def Let_def)
  from scan_frames_first [OF m, of fps "length (snd m)"]
  show ?thesis
    by (simp add: derive_frame_sequence_def ff m Let_def)
qed

lemma tile_infos_of_ok:
  "\<forall>td \<in> set tds. first_frame_numbered td \<Longrightarrow>
   \<exists>infos. tile_infos_of base thr tds = Inr infos \<and> map fst infos = map dir_name tds"
proof (induction tds)
  case Nil
  show ?case by simp
next
  case (Cons td tds)
  then obtain infos where i: "tile_infos_of base thr tds = Inr infos"
    and n: "map fst infos = map dir_name tds" by auto
  from Cons.prems derive_frame_sequence_ok [of td]
  obtain seq where "derive_frame_sequence td = Inr seq" by auto
  with i n show ?case by (simp add: and_then_def)
qed

lemma tasks_enum_length:
  "length (concat (map (\<lambda>(qp_idx, qp). map (\<lambda>info. (qp_idx, fst info, snd info, qp)) infos)
             (enumerate k ns))) = length ns * length infos"
  by (induction ns arbitrary: k) simp_all

lemma tasks_enum_nth:
  "qi < length ns \<Longrightarrow> ti < length infos \<Longrightarrow>
   concat (map (\<lambda>(qp_idx, qp). map (\<lambda>info. (qp_idx, fst info, snd info, qp)) infos)
             (enumerate k ns)) ! (qi * length infos + ti)
     = (k + qi, fst (infos ! ti), snd (infos ! ti), ns ! qi)"
proof (induction ns arbitrary: k qi)
  case Nil
  then show ?case by simp
next
  case (Cons n ns)
  show ?case
  proof (cases qi)
    case 0
    with Cons.prems show ?thesis by (simp add: nth_append)
  next
    case (Suc q)
    with Cons.prems have "q < length ns" by simp
    from Cons.IH [OF this Cons.prems(2), of "Suc k"] Suc
    show ?thesis by (simp add: nth_append)
  qed
qed

lemma tasks_of_length: "length (tasks_of ns infos) = length ns * length infos"
  by (simp add: tasks_of_def tasks_enum_length)

lemma tasks_of_nth:
  "qi < length ns \<Longrightarrow> ti < length infos \<Longrightarrow>
   tasks_of ns infos ! (qi * length infos + ti) = (qi, fst (infos ! ti), snd (infos ! ti), ns ! qi)"
  using tasks_enum_nth [of qi ns ti infos 0] by (simp add: tasks_of_def)


lemma example_derive:
  "derive_frame_sequence \<lparr>dir_name = d, dir_entries = frames_f0000_f0009\<rparr>
     = Inr (''f%04d.ply'', 0, 10)"
  unfolding frames_f0000_f0009_def by code_simp

lemma example_first_numbered:
  "first_frame_numbered \<lparr>dir_name = ''tile_0'', dir_entries = frames_f0000_f0009\<rparr>"
  unfolding frames_f0000_f0009_def by code_simp

lemma example_unnumbered_first:
  "derive_frame_sequence \<lparr>dir_name = ''tile_0'', dir_entries = [''a.ply'', ''b1.ply'']\<rparr>
     = Inl (ValueError ''tile_0: unable to infer numbering pattern from a'')"
  by code_simp

text \<open>
  C8, as stated, fails: a tile directory with the files \<open>a.ply\<close> and \<open>b1.ply\<close> holds a
  frame file with a trailing number, yet the builder raises, since the numbering is read off
  the first file in sorted order.
\<close>

theorem first_frame_unnumbered_counterexample:
  "re_prefix_digits (ply_stem ''b1.ply'') = Some (''b'', ''1'')
   \<and> encode_tiles_with_qp_pairs ''tiles'' True
       [\<lparr>dir_name = ''tile_0'', dir_entries = [''a.ply'', ''b1.ply'']\<rparr>]
       [QSeq [24, 32, 43]] Map.empty None False
     = Inl (ValueError
         ''Tile tile_0 is invalid: tile_0: unable to infer numbering pattern from a'')"
proof -
  have "re_prefix_digits (ply_stem ''b1.ply'') = Some (''b'', ''1'')"
    by code_simp
  then show ?thesis
    by (simp add: encode_tiles_with_qp_pairs_def normalize_qp_pairs_def and_then_def
        example_unnumbered_first)
qed

text \<open>
  C8, amended. When the tiles root exists, no cancellation is requested, there is at least
  one tile directory, the first \<open>.ply\<close> file (in sorted order) of every tile directory ends
  in a number, and the list of QP sets is non-empty and all its entries are valid, the
  builder makes exactly \<open>T * Q\<close> tasks, QP-major and tile-minor: task \<open>qi * T + ti\<close> is for
  the \<open>qi\<close>-th QP set and the \<open>ti\<close>-th tile directory in sorted order. For a directory
  with the frames \<open>f0000.ply\<close> to \<open>f0009.ply\<close> it infers the pattern \<open>f%04d.ply\<close>, start
  frame 0 and frame count 10.
\<close>

theorem job_graph_product:
  assumes root: "root_exists" and run: "\<not> cancel_requested"
    and T: "subdirs \<noteq> []" and Q: "qp_pairs \<noteq> []"
    and valid: "\<forall>q \<in> set qp_pairs. qp_valid q"
    and numbered: "\<forall>td \<in> set subdirs. first_frame_numbered td"
  shows "(\<exists>tasks.
            encode_tiles_with_qp_pairs tiles_root root_exists subdirs qp_pairs base_params
                threads_per_instance cancel_requested = Inr (Some tasks)
            \<and> length tasks = length subdirs * length qp_pairs
            \<and> (\<forall>qi < length qp_pairs. \<forall>ti < length subdirs.
                  fst (tasks ! (qi * length subdirs + ti)) = qi
                  \<and> fst (snd (tasks ! (qi * length subdirs + ti)))
                      = dir_name (sort_key dir_name subdirs ! ti)
                  \<and> snd (snd (snd (tasks ! (qi * length subdirs + ti)))) = qp_of (qp_pairs ! qi)))
       \<and> derive_frame_sequence \<lparr>dir_name = d, dir_entries = frames_f0000_f0009\<rparr>
           = Inr (''f%04d.ply'', 0, 10)"
proof -
  let ?dirs = "sort_key dir_name subdirs"
  let ?ns = "map qp_of qp_pairs"
  have norm: "normalize_qp_pairs qp_pairs = Inr ?ns"
    using Q normalize_from_valid [OF valid] by (simp add: normalize_qp_pairs_def)
  have "\<forall>td \<in> set ?dirs. first_frame_numbered td"
    using numbered by simp
  from tile_infos_of_ok [OF this]
  obtain infos where infos: "tile_infos_of base_params threads_per_instance ?dirs = Inr infos"
    and names: "map fst infos = map dir_name ?dirs" by blast
  from names have len: "length infos = length subdirs"
    by (metis length_map length_sort)
  have dirs_ne: "?dirs \<noteq> []"
    using T by (metis length_sort length_0_conv)
  have res: "encode_tiles_with_qp_pairs tiles_root root_exists subdirs qp_pairs base_params
                threads_per_instance cancel_requested = Inr (Some (tasks_of ?ns infos))"
    using root run dirs_ne
    by (simp add: encode_tiles_with_qp_pairs_def norm and_then_def infos Let_def)
  have l: "length (tasks_of ?ns infos) = length subdirs * length qp_pairs"
    by (simp add: tasks_of_length len)
  have "fst (tasks_of ?ns infos ! (qi * length subdirs + ti)) = qi
        \<and> fst (snd (tasks_of ?ns infos ! (qi * length subdirs + ti))) = dir_name (?dirs ! ti)
        \<and> snd (snd (snd (tasks_of ?ns infos ! (qi * length subdirs + ti)))) = qp_of (qp_pairs ! qi)"
    if qi: "qi < length qp_pairs" and ti: "ti < length subdirs" for qi ti
  proof -
    have "tasks_of ?ns infos ! (qi * length infos + ti)
        = (qi, fst (infos ! ti), snd (infos ! ti), ?ns ! qi)"
      using qi ti by (intro tasks_of_nth) (simp_all add: len)
    moreover have "fst (infos ! ti) = dir_name (?dirs ! ti)"
      using ti len names by (metis length_map nth_map)
    ultimately show ?thesis using qi by (simp add: len)
  qed
  with res l example_derive show ?thesis by blast
qed

theorem job_graph_product_witness:
  "first_frame_numbered \<lparr>dir_name = ''tile_0'', dir_entries = frames_f0000_f0009\<rparr>
   \<and> qp_valid (QSeq [24, 32, 43])
   \<and> (\<exists>tasks.
         encode_tiles_with_qp_pairs ''tiles'' True
             [\<lparr>dir_name = ''tile_0'', dir_entries = frames_f0000_f0009\<rparr>] [QSeq [24, 32, 43]]
             Map.empty None False = Inr (Some tasks)
         \<and> length tasks = 1
         \<and> fst (tasks ! 0) = 0 \<and> fst (snd (tasks ! 0)) = ''tile_0''
         \<and> snd (snd (snd (tasks ! 0))) = (24, 32, 43))
   \<and> derive_frame_sequence \<lparr>dir_name = ''tile_0'', dir_entries = frames_f0000_f0009\<rparr>
       = Inr (''f%04d.ply'', 0, 10)"
  using job_graph_product [of True False
      "[\<lparr>dir_name = ''tile_0'', dir_entries = frames_f0000_f0009\<rparr>]" "[QSeq [24, 32, 43]]"
      "''tiles''" Map.empty None "''tile_0''"]
    example_first_numbered
  by simp









section \<open>Properties of the spatial partitioner\<close>

lemma fmt_f_0 [simp]: "fmt_f 0 = 0"
  by (simp add: fmt_f_def round_half_even_def)











lemma fmt_d_0 [simp]: "fmt_d 0 = 0"
  by (simp add: fmt_d_def trunc_def)

















end
